theory Spec2Isabelle
  imports Main "HOL-Library.Word"
begin

section \<open>The build target and the running OS\<close>

text \<open>
  \<^verbatim>\<open>src/apple/barrier.c\<close> reads its environment in two ways: the preprocessor tests
  \<^verbatim>\<open>defined(__x86_64__)\<close> and \<^verbatim>\<open>defined(__aarch64__)\<close> (the architecture the file is
  compiled for), and \<^verbatim>\<open>__builtin_available (macOS 10.14, iOS 12, *)\<close> asks at run time
  for the version of the OS the process runs on.
\<close>

datatype arch = X86_64 | AArch64 | I386 | Arm32 | Other_arch

text \<open>The two predefined compiler macros the source tests.\<close>

definition defined_x86_64 :: "arch \<Rightarrow> bool" where
  "defined_x86_64 a = (a = X86_64)"

definition defined_aarch64 :: "arch \<Rightarrow> bool" where
  "defined_aarch64 a = (a = AArch64)"

text \<open>
  The running OS: macOS or iOS with its major and minor version, or another platform,
  which the \<^verbatim>\<open>*\<close> of the availability check covers.
\<close>

datatype os_build = MacOS nat nat | IOS nat nat | Other_OS

text \<open>
  \<^verbatim>\<open>__builtin_available (macOS 10.14, iOS 12, *)\<close>, line 45: true on macOS from 10.14,
  on iOS from 12, and on every platform that is not listed.
\<close>

fun builtin_available :: "os_build \<Rightarrow> bool" where
  "builtin_available (MacOS major minor) = (10 < major \<or> (major = 10 \<and> 14 \<le> minor))"
| "builtin_available (IOS major minor) = (12 \<le> major)"
| "builtin_available Other_OS = True"

record host =
  arch :: arch
  os :: os_build

section \<open>The kernel interface\<close>

text \<open>
  \<^verbatim>\<open>kern_return_t\<close> is a C \<^verbatim>\<open>int\<close>; \<^verbatim>\<open>KERN_SUCCESS\<close> is 0. A thread handle
  (\<^verbatim>\<open>thread_act_t\<close>) is a Mach port name, an unsigned 32-bit value.
\<close>

type_synonym kern_return_t = int
type_synonym thread_act_t = "32 word"

definition KERN_SUCCESS :: kern_return_t where
  "KERN_SUCCESS = 0"

datatype thread_state_flavor = x86_THREAD_STATE64 | ARM_THREAD_STATE64

text \<open>
  The five kernel calls of the source. \<^verbatim>\<open>vm_deallocate\<close> carries the size in bytes,
  \<^verbatim>\<open>thread_count * sizeof(thread_act_t)\<close>.
\<close>

datatype syscall =
    Task_threads
  | Thread_get_register_pointer_values thread_act_t
  | Thread_get_state thread_act_t thread_state_flavor
  | Mach_port_deallocate thread_act_t
  | Vm_deallocate nat

text \<open>
  What a kernel call gives back: its \<^verbatim>\<open>kern_return_t\<close> and, for \<^verbatim>\<open>task_threads\<close>, the
  out-parameters \<^verbatim>\<open>thread_acts\<close> and \<^verbatim>\<open>thread_count\<close> as one list (its length is
  \<^verbatim>\<open>thread_count\<close>). The other calls' out-parameters (registers, thread state) are
  never read by the source and are left out.
\<close>

record reply =
  ret :: kern_return_t
  threads :: "thread_act_t list"

text \<open>
  The state the function changes is the kernel's, and all the function does to it is
  make calls: the state is the chronological list of the calls made with their
  replies. A kernel is any function that answers a call given that history, so a reply
  may depend on everything that happened before.
\<close>

type_synonym event = "syscall \<times> reply"
type_synonym trace = "event list"
type_synonym kernel = "trace \<Rightarrow> syscall \<Rightarrow> reply"

definition do_syscall :: "kernel \<Rightarrow> syscall \<Rightarrow> trace \<Rightarrow> reply \<times> trace" where
  "do_syscall K sc tr = (let r = K tr sc in (r, tr @ [(sc, r)]))"

definition sizeof_thread_act_t :: nat where
  "sizeof_thread_act_t = 4"

section \<open>The two entry points\<close>

text \<open>
  \<^verbatim>\<open>is_supported\<close>, lines 23 to 29. It makes no kernel call: the trace it returns is
  empty.
\<close>

definition is_supported :: "host \<Rightarrow> kernel \<Rightarrow> int \<times> trace" where
  "is_supported h K =
     (if defined_x86_64 (arch h) \<or> defined_aarch64 (arch h) then (1, []) else (0, []))"

text \<open>
  Lines 45 to 66: the kernel call that forces the fence on one thread, or \<open>None\<close>
  where the source has \<^verbatim>\<open>return -2\<close>.
\<close>

definition fence_syscall :: "host \<Rightarrow> thread_act_t \<Rightarrow> syscall option" where
  "fence_syscall h t =
     (if builtin_available (os h) then Some (Thread_get_register_pointer_values t)
      else if defined_x86_64 (arch h) then Some (Thread_get_state t x86_THREAD_STATE64)
      else if defined_aarch64 (arch h) then Some (Thread_get_state t ARM_THREAD_STATE64)
      else None)"

text \<open>
  The loop of lines 42 to 70 over \<^verbatim>\<open>thread_acts[0 .. thread_count - 1]\<close>. \<open>Some e\<close> is
  an early \<^verbatim>\<open>return e\<close> out of the loop, \<open>None\<close> is the loop running to its end.
\<close>

fun thread_loop :: "host \<Rightarrow> kernel \<Rightarrow> thread_act_t list \<Rightarrow> trace \<Rightarrow> int option \<times> trace" where
  "thread_loop h K [] tr = (None, tr)"
| "thread_loop h K (t # ts) tr =
     (case fence_syscall h t of
        None \<Rightarrow> (Some (- 2), tr)
      | Some sc \<Rightarrow>
          (case do_syscall K sc tr of
             (syscall_succ, tr1) \<Rightarrow>
               if ret syscall_succ \<noteq> KERN_SUCCESS then (Some (- 3), tr1)
               else
                 (case do_syscall K (Mach_port_deallocate t) tr1 of
                    (r, tr2) \<Rightarrow>
                      if ret r \<noteq> KERN_SUCCESS then (Some (- 4), tr2)
                      else thread_loop h K ts tr2)))"

text \<open>\<^verbatim>\<open>flush_process_write_buffers\<close>, lines 35 to 75: the status and the calls made.\<close>

definition flush_process_write_buffers :: "host \<Rightarrow> kernel \<Rightarrow> int \<times> trace" where
  "flush_process_write_buffers h K =
     (case do_syscall K Task_threads [] of
        (r0, tr0) \<Rightarrow>
          if ret r0 \<noteq> KERN_SUCCESS then (- 1, tr0)
          else
            (case thread_loop h K (threads r0) tr0 of
               (Some e, tr1) \<Rightarrow> (e, tr1)
             | (None, tr1) \<Rightarrow>
                 (case do_syscall K
                         (Vm_deallocate (length (threads r0) * sizeof_thread_act_t)) tr1 of
                    (r, tr2) \<Rightarrow>
                      if ret r \<noteq> KERN_SUCCESS then (- 5, tr2) else (0, tr2))))"

section \<open>What a trace shows\<close>

text \<open>
  The properties below are read off the trace a run leaves. A fence-forcing call is
  either of the two per-thread register queries.
\<close>

fun is_fence_call :: "syscall \<Rightarrow> bool" where
  "is_fence_call (Thread_get_register_pointer_values t) = True"
| "is_fence_call (Thread_get_state t fl) = True"
| "is_fence_call _ = False"

definition fence_calls :: "trace \<Rightarrow> syscall list" where
  "fence_calls tr = filter is_fence_call (map fst tr)"

text \<open>A fence-forcing call that the kernel answered with an error.\<close>

definition fence_failed :: "event \<Rightarrow> bool" where
  "fence_failed e = (is_fence_call (fst e) \<and> ret (snd e) \<noteq> KERN_SUCCESS)"

text \<open>
  The threads handed out by the enumeration that opens the trace, if it succeeded.
\<close>

definition enumerated :: "trace \<Rightarrow> thread_act_t list option" where
  "enumerated tr =
     (case tr of
        [] \<Rightarrow> None
      | e # _ \<Rightarrow>
          if fst e = Task_threads \<and> ret (snd e) = KERN_SUCCESS then Some (threads (snd e))
          else None)"

text \<open>The successful deallocations of the thread list.\<close>

fun deallocated_by :: "event \<Rightarrow> bool" where
  "deallocated_by (Vm_deallocate n, r) = (ret r = KERN_SUCCESS)"
| "deallocated_by _ = False"

definition list_deallocated :: "trace \<Rightarrow> bool" where
  "list_deallocated tr = (filter deallocated_by tr \<noteq> [])"

text \<open>
  The barrier as the specification words it, to compare the code with. A fence path
  exists on a host when the preferred path is available or the architecture has a
  native thread-state accessor; the step that forces the fence on one thread is then
  the preferred call, or the accessor of the architecture.
\<close>

definition fence_path_exists :: "host \<Rightarrow> bool" where
  "fence_path_exists h = (builtin_available (os h) \<or> arch h = X86_64 \<or> arch h = AArch64)"

definition fence_step :: "host \<Rightarrow> thread_act_t \<Rightarrow> syscall" where
  "fence_step h t =
     (if builtin_available (os h) then Thread_get_register_pointer_values t
      else if arch h = X86_64 then Thread_get_state t x86_THREAD_STATE64
      else Thread_get_state t ARM_THREAD_STATE64)"

text \<open>
  The steps of a whole barrier over the threads \<open>ts\<close>: the enumeration; for each thread
  in order its fence attempt and the release of its handle; the deallocation of the
  list.
\<close>

definition thread_steps :: "host \<Rightarrow> thread_act_t list \<Rightarrow> syscall list" where
  "thread_steps h ts = concat (map (\<lambda>t. [fence_step h t, Mach_port_deallocate t]) ts)"

definition barrier_steps :: "host \<Rightarrow> thread_act_t list \<Rightarrow> syscall list" where
  "barrier_steps h ts =
     Task_threads # thread_steps h ts @ [Vm_deallocate (length ts * sizeof_thread_act_t)]"

text \<open>
  What the kernel \<open>K\<close> answers when a list of calls is put to it one after the other,
  each with the history of the calls before it; \<open>replay\<close> starts from no history. A
  call is granted when the kernel answers \<^verbatim>\<open>KERN_SUCCESS\<close>.
\<close>

fun issue :: "kernel \<Rightarrow> syscall list \<Rightarrow> trace \<Rightarrow> trace" where
  "issue K [] tr = tr"
| "issue K (sc # scs) tr = issue K scs (tr @ [(sc, K tr sc)])"

definition replay :: "kernel \<Rightarrow> syscall list \<Rightarrow> trace" where
  "replay K scs = issue K scs []"

definition granted :: "event \<Rightarrow> bool" where
  "granted e = (ret (snd e) = KERN_SUCCESS)"

text \<open>
  Kernel resources the process still owns after a trace: a successful \<^verbatim>\<open>task_threads\<close>
  hands out one handle per thread, a successful \<^verbatim>\<open>mach_port_deallocate\<close> gives one
  back; the thread list is owned from a successful enumeration until a successful
  \<^verbatim>\<open>vm_deallocate\<close>.
\<close>

fun account :: "event \<Rightarrow> thread_act_t list \<Rightarrow> thread_act_t list" where
  "account (Task_threads, r) held = (if ret r = KERN_SUCCESS then held @ threads r else held)"
| "account (Mach_port_deallocate t, r) held =
     (if ret r = KERN_SUCCESS then remove1 t held else held)"
| "account _ held = held"

definition held_handles :: "trace \<Rightarrow> thread_act_t list" where
  "held_handles tr = fold account tr []"

definition list_held :: "trace \<Rightarrow> bool" where
  "list_held tr = (enumerated tr \<noteq> None \<and> \<not> list_deallocated tr)"

section \<open>The status codes\<close>

text \<open>
  The source returns bare integers; these are the names the specification gives them,
  each with the value of the \<^verbatim>\<open>return\<close> it stands for (lines 39, 64, 68, 69, 73).
\<close>

definition EnumerationFailed :: int where
  "EnumerationFailed = - 1"

definition ArchitectureUnsupported :: int where
  "ArchitectureUnsupported = - 2"

definition PerThreadFenceFailed :: int where
  "PerThreadFenceFailed = - 3"

definition HandleReleaseFailed :: int where
  "HandleReleaseFailed = - 4"

definition ListDeallocationFailed :: int where
  "ListDeallocationFailed = - 5"

section \<open>Kernels to run the code on\<close>

text \<open>A kernel that grants every call and enumerates the threads \<open>ts\<close>.\<close>

definition kernel_ok :: "thread_act_t list \<Rightarrow> kernel" where
  "kernel_ok ts tr sc =
     \<lparr>ret = KERN_SUCCESS, threads = (if sc = Task_threads then ts else [])\<rparr>"

text \<open>The same kernel, but answering the call \<open>bad\<close> with \<^verbatim>\<open>KERN_FAILURE\<close> (5).\<close>

definition kernel_failing :: "syscall \<Rightarrow> thread_act_t list \<Rightarrow> kernel" where
  "kernel_failing bad ts tr sc =
     \<lparr>ret = (if sc = bad then 5 else KERN_SUCCESS),
      threads = (if sc = Task_threads then ts else [])\<rparr>"

section \<open>Running the code\<close>

lemma do_syscall_eq: "do_syscall K sc tr = (K tr sc, tr @ [(sc, K tr sc)])"
  by (simp add: do_syscall_def Let_def)

text \<open>The function with its kernel calls written out, down to the loop.\<close>

lemma flush_unfold:
  "flush_process_write_buffers h K =
     (let r0 = K [] Task_threads; tr0 = [(Task_threads, r0)] in
      if ret r0 \<noteq> KERN_SUCCESS then (- 1, tr0)
      else (case thread_loop h K (threads r0) tr0 of
              (Some e, tr1) \<Rightarrow> (e, tr1)
            | (None, tr1) \<Rightarrow>
                (let sc = Vm_deallocate (length (threads r0) * sizeof_thread_act_t);
                     r = K tr1 sc
                 in (if ret r \<noteq> KERN_SUCCESS then - 5 else 0, tr1 @ [(sc, r)]))))"
  by (simp add: flush_process_write_buffers_def do_syscall_eq Let_def
        split: prod.splits option.splits)

lemmas eval_defs = flush_process_write_buffers_def do_syscall_def Let_def fence_syscall_def
  kernel_ok_def kernel_failing_def KERN_SUCCESS_def defined_x86_64_def defined_aarch64_def
  sizeof_thread_act_t_def

lemmas status_defs = EnumerationFailed_def ArchitectureUnsupported_def
  PerThreadFenceFailed_def HandleReleaseFailed_def ListDeallocationFailed_def

text \<open>Six runs on concrete kernels, one per status.\<close>

lemma run_success:
  "flush_process_write_buffers \<lparr>arch = X86_64, os = MacOS 10 14\<rparr> (kernel_ok [1]) =
     (0, [(Task_threads, \<lparr>ret = 0, threads = [1]\<rparr>),
          (Thread_get_register_pointer_values 1, \<lparr>ret = 0, threads = []\<rparr>),
          (Mach_port_deallocate 1, \<lparr>ret = 0, threads = []\<rparr>),
          (Vm_deallocate 4, \<lparr>ret = 0, threads = []\<rparr>)])"
  by (simp add: eval_defs)

lemma run_fallback_x86:
  "flush_process_write_buffers \<lparr>arch = X86_64, os = MacOS 10 13\<rparr> (kernel_ok [1]) =
     (0, [(Task_threads, \<lparr>ret = 0, threads = [1]\<rparr>),
          (Thread_get_state 1 x86_THREAD_STATE64, \<lparr>ret = 0, threads = []\<rparr>),
          (Mach_port_deallocate 1, \<lparr>ret = 0, threads = []\<rparr>),
          (Vm_deallocate 4, \<lparr>ret = 0, threads = []\<rparr>)])"
  by (simp add: eval_defs)

lemma run_fallback_arm:
  "flush_process_write_buffers \<lparr>arch = AArch64, os = IOS 11 4\<rparr> (kernel_ok [1]) =
     (0, [(Task_threads, \<lparr>ret = 0, threads = [1]\<rparr>),
          (Thread_get_state 1 ARM_THREAD_STATE64, \<lparr>ret = 0, threads = []\<rparr>),
          (Mach_port_deallocate 1, \<lparr>ret = 0, threads = []\<rparr>),
          (Vm_deallocate 4, \<lparr>ret = 0, threads = []\<rparr>)])"
  by (simp add: eval_defs)

lemma run_enumeration_failed:
  "fst (flush_process_write_buffers \<lparr>arch = X86_64, os = MacOS 10 14\<rparr>
          (kernel_failing Task_threads [1])) = - 1"
  by (simp add: eval_defs)

lemma run_unsupported:
  "fst (flush_process_write_buffers \<lparr>arch = I386, os = MacOS 10 13\<rparr> (kernel_ok [1])) = - 2"
  by (simp add: eval_defs)

lemma run_fence_failed:
  "fst (flush_process_write_buffers \<lparr>arch = X86_64, os = MacOS 10 14\<rparr>
          (kernel_failing (Thread_get_register_pointer_values 1) [1])) = - 3"
  by (simp add: eval_defs)

lemma run_release_failed:
  "fst (flush_process_write_buffers \<lparr>arch = X86_64, os = MacOS 10 14\<rparr>
          (kernel_failing (Mach_port_deallocate 1) [1])) = - 4"
  by (simp add: eval_defs)

lemma run_dealloc_failed:
  "fst (flush_process_write_buffers \<lparr>arch = X86_64, os = MacOS 10 14\<rparr>
          (kernel_failing (Vm_deallocate 4) [1])) = - 5"
  by (simp add: eval_defs)

section \<open>The loop\<close>

lemma thread_loop_status:
  "thread_loop h K ts tr = (res, tr') \<Longrightarrow> res \<in> {None, Some (- 2), Some (- 3), Some (- 4)}"
  by (induction ts arbitrary: tr) (auto split: option.splits prod.splits if_splits)

lemma flush_status: "fst (flush_process_write_buffers h K) \<in> {0, - 1, - 2, - 3, - 4, - 5}"
proof -
  obtain r0 tr0 where d: "do_syscall K Task_threads [] = (r0, tr0)"
    by (cases "do_syscall K Task_threads []")
  obtain res tr1 where l: "thread_loop h K (threads r0) tr0 = (res, tr1)"
    by (cases "thread_loop h K (threads r0) tr0")
  from thread_loop_status[OF l] show ?thesis
    by (auto simp: flush_process_write_buffers_def d l split: prod.splits option.splits)
qed

lemma fence_syscall_cases:
  "fence_syscall h t = Some sc \<Longrightarrow>
     sc = Thread_get_register_pointer_values t \<or> (\<exists>fl. sc = Thread_get_state t fl)"
  by (auto simp: fence_syscall_def split: if_splits)

lemma fence_syscall_is_fence: "fence_syscall h t = Some sc \<Longrightarrow> is_fence_call sc"
  by (auto dest: fence_syscall_cases)

lemma held_handles_append: "held_handles (a @ b) = fold account b (held_handles a)"
  by (simp add: held_handles_def)

lemma account_fence: "is_fence_call sc \<Longrightarrow> account (sc, r) held = held"
  by (cases sc) simp_all

text \<open>The loop leaves the head of the trace alone.\<close>

lemma thread_loop_enumerated:
  "thread_loop h K ts tr = (res, tr') \<Longrightarrow> tr \<noteq> [] \<Longrightarrow>
     enumerated tr' = enumerated tr \<and> tr' \<noteq> []"
  by (induction ts arbitrary: tr)
     (auto simp: do_syscall_eq enumerated_def split: option.splits if_splits list.splits)

lemma thread_loop_releases:
  "thread_loop h K ts tr = (None, tr') \<Longrightarrow> held_handles tr = ts \<Longrightarrow> held_handles tr' = []"
proof (induction ts arbitrary: tr)
  case Nil
  then show ?case by simp
next
  case (Cons t ts)
  from Cons.prems(1) obtain sc where sc: "fence_syscall h t = Some sc"
    by (cases "fence_syscall h t") auto
  let ?tr1 = "tr @ [(sc, K tr sc)]"
  let ?tr2 = "?tr1 @ [(Mach_port_deallocate t, K ?tr1 (Mach_port_deallocate t))]"
  from Cons.prems(1) sc have ok: "ret (K tr sc) = KERN_SUCCESS"
    "ret (K ?tr1 (Mach_port_deallocate t)) = KERN_SUCCESS"
    "thread_loop h K ts ?tr2 = (None, tr')"
    by (auto simp: do_syscall_eq split: if_splits)
  have "held_handles ?tr2 = ts"
    using Cons.prems(2) ok(2) fence_syscall_is_fence[OF sc]
    by (simp add: held_handles_append account_fence)
  from Cons.IH[OF ok(3) this] show ?case .
qed

text \<open>
  The only way out of the loop with \<open>- 3\<close> is a failed fence-forcing call as the last
  event; every other way out leaves no failed fence-forcing call in the trace.
\<close>

lemma thread_loop_fence_failure:
  "thread_loop h K ts tr = (res, tr') \<Longrightarrow> \<forall>e\<in>set tr. \<not> fence_failed e \<Longrightarrow>
     (if res = Some (- 3)
      then tr' \<noteq> [] \<and> fence_failed (last tr') \<and> (\<forall>e\<in>set (butlast tr'). \<not> fence_failed e)
      else \<forall>e\<in>set tr'. \<not> fence_failed e)"
proof (induction ts arbitrary: tr)
  case Nil
  then show ?case by auto
next
  case (Cons t ts)
  show ?case
  proof (cases "fence_syscall h t")
    case None
    with Cons.prems show ?thesis by auto
  next
    case (Some sc)
    note f = fence_syscall_is_fence[OF Some]
    let ?r1 = "K tr sc"
    let ?tr1 = "tr @ [(sc, ?r1)]"
    show ?thesis
    proof (cases "ret ?r1 = KERN_SUCCESS")
      case False
      with Cons.prems Some f show ?thesis
        by (auto simp: do_syscall_eq fence_failed_def)
    next
      case True
      let ?r2 = "K ?tr1 (Mach_port_deallocate t)"
      let ?tr2 = "?tr1 @ [(Mach_port_deallocate t, ?r2)]"
      have ok2: "\<forall>e\<in>set ?tr2. \<not> fence_failed e"
        using Cons.prems(2) True by (auto simp: fence_failed_def)
      show ?thesis
      proof (cases "ret ?r2 = KERN_SUCCESS")
        case False
        with Cons.prems(1) Some True ok2 show ?thesis
          by (auto simp: do_syscall_eq)
      next
        case r2: True
        with Cons.prems(1) Some True have "thread_loop h K ts ?tr2 = (res, tr')"
          by (simp add: do_syscall_eq)
        from Cons.IH[OF this ok2] show ?thesis .
      qed
    qed
  qed
qed

text \<open>
  The fence-forcing calls the loop makes are the selected call on a prefix of the
  thread list, and on the whole list when the loop runs to its end.
\<close>

lemma thread_loop_fence_calls:
  "thread_loop h K ts tr = (res, tr') \<Longrightarrow>
     \<exists>n\<le>length ts.
        fence_calls tr' = fence_calls tr @ map (\<lambda>t. the (fence_syscall h t)) (take n ts) \<and>
        (res = None \<longrightarrow> n = length ts)"
proof (induction ts arbitrary: tr)
  case Nil
  then show ?case by simp
next
  case (Cons t ts)
  show ?case
  proof (cases "fence_syscall h t")
    case None
    with Cons.prems show ?thesis by auto
  next
    case (Some sc)
    note f = fence_syscall_is_fence[OF Some]
    let ?tr1 = "tr @ [(sc, K tr sc)]"
    let ?tr2 = "?tr1 @ [(Mach_port_deallocate t, K ?tr1 (Mach_port_deallocate t))]"
    have fc: "fence_calls ?tr1 = fence_calls tr @ [sc]" "fence_calls ?tr2 = fence_calls tr @ [sc]"
      using f by (simp_all add: fence_calls_def)
    consider (fence) "ret (K tr sc) \<noteq> KERN_SUCCESS"
      | (release) "ret (K tr sc) = KERN_SUCCESS"
          "ret (K ?tr1 (Mach_port_deallocate t)) \<noteq> KERN_SUCCESS"
      | (continue) "ret (K tr sc) = KERN_SUCCESS"
          "ret (K ?tr1 (Mach_port_deallocate t)) = KERN_SUCCESS"
      by blast
    then show ?thesis
    proof cases
      case fence
      with Cons.prems Some have "res = Some (- 3)" "tr' = ?tr1"
        by (auto simp: do_syscall_eq)
      with fc Some show ?thesis by (intro exI[of _ 1]) simp
    next
      case release
      with Cons.prems Some have "res = Some (- 4)" "tr' = ?tr2"
        by (auto simp: do_syscall_eq)
      with fc Some show ?thesis by (intro exI[of _ 1]) simp
    next
      case continue
      with Cons.prems Some have "thread_loop h K ts ?tr2 = (res, tr')"
        by (simp add: do_syscall_eq)
      from Cons.IH[OF this] obtain n where n: "n \<le> length ts"
        "fence_calls tr' = fence_calls ?tr2 @ map (\<lambda>t. the (fence_syscall h t)) (take n ts)"
        "res = None \<longrightarrow> n = length ts" by blast
      with fc Some show ?thesis by (intro exI[of _ "Suc n"]) simp
    qed
  qed
qed

lemma issue_append: "issue K (a @ b) tr = issue K b (issue K a tr)"
  by (induction a arbitrary: tr) simp_all

lemma issue_granted_prefix: "list_all granted (issue K scs tr) \<Longrightarrow> list_all granted tr"
proof (induction scs arbitrary: tr)
  case Nil
  then show ?case by simp
next
  case (Cons sc scs)
  from Cons.prems have "list_all granted (issue K scs (tr @ [(sc, K tr sc)]))" by simp
  from Cons.IH[OF this] show ?case by simp
qed

lemma fence_path_syscall: "fence_path_exists h \<Longrightarrow> fence_syscall h t = Some (fence_step h t)"
  by (auto simp: fence_path_exists_def fence_syscall_def fence_step_def defined_x86_64_def
        defined_aarch64_def)

lemma no_fence_path:
  "\<not> fence_path_exists h \<Longrightarrow>
     \<not> builtin_available (os h) \<and> \<not> defined_x86_64 (arch h) \<and> \<not> defined_aarch64 (arch h)"
  by (simp add: fence_path_exists_def defined_x86_64_def defined_aarch64_def)

text \<open>
  On a host with a fence path the loop runs to its end exactly when the kernel grants
  every per-thread step, and then the loop's trace is the kernel's answers to them.
\<close>

lemma thread_loop_replay:
  assumes "fence_path_exists h"
  shows "thread_loop h K ts tr = (res, tr') \<Longrightarrow> list_all granted tr \<Longrightarrow>
     (res = None \<longleftrightarrow> list_all granted (issue K (thread_steps h ts) tr)) \<and>
     (res = None \<longrightarrow> tr' = issue K (thread_steps h ts) tr)"
proof (induction ts arbitrary: tr)
  case Nil
  then show ?case by (simp add: thread_steps_def)
next
  case (Cons t ts)
  let ?sc = "fence_step h t"
  let ?tr1 = "tr @ [(?sc, K tr ?sc)]"
  let ?tr2 = "?tr1 @ [(Mach_port_deallocate t, K ?tr1 (Mach_port_deallocate t))]"
  note sc = fence_path_syscall[OF assms, of t]
  have steps: "issue K (thread_steps h (t # ts)) tr = issue K (thread_steps h ts) ?tr2"
    by (simp add: thread_steps_def)
  consider (fence) "ret (K tr ?sc) \<noteq> KERN_SUCCESS"
    | (release) "ret (K tr ?sc) = KERN_SUCCESS"
        "ret (K ?tr1 (Mach_port_deallocate t)) \<noteq> KERN_SUCCESS"
    | (continue) "ret (K tr ?sc) = KERN_SUCCESS"
        "ret (K ?tr1 (Mach_port_deallocate t)) = KERN_SUCCESS"
    by blast
  then show ?case
  proof cases
    case fence
    with Cons.prems sc have r: "res = Some (- 3)" by (auto simp: do_syscall_eq)
    have "\<not> list_all granted ?tr2" using fence by (simp add: granted_def)
    then have "\<not> list_all granted (issue K (thread_steps h ts) ?tr2)"
      using issue_granted_prefix by blast
    with r steps show ?thesis by simp
  next
    case release
    with Cons.prems sc have r: "res = Some (- 4)" by (auto simp: do_syscall_eq)
    have "\<not> list_all granted ?tr2" using release by (simp add: granted_def)
    then have "\<not> list_all granted (issue K (thread_steps h ts) ?tr2)"
      using issue_granted_prefix by blast
    with r steps show ?thesis by simp
  next
    case continue
    with Cons.prems sc have l: "thread_loop h K ts ?tr2 = (res, tr')"
      by (simp add: do_syscall_eq)
    have g: "list_all granted ?tr2"
      using Cons.prems(2) continue by (simp add: list_all_iff granted_def)
    from Cons.IH[OF l g] steps show ?thesis by simp
  qed
qed

lemmas replay_defs = replay_def barrier_steps_def thread_steps_def fence_step_def granted_def
  fence_path_exists_def

lemma thread_loop_available:
  "builtin_available (os h) \<Longrightarrow> thread_loop h K ts tr = (res, tr') \<Longrightarrow> res \<noteq> Some (- 2)"
  by (induction ts arbitrary: tr)
     (auto simp: fence_syscall_def split: option.splits prod.splits if_splits)

lemma thread_loop_unsupported:
  "\<not> builtin_available (os h) \<Longrightarrow> \<not> defined_x86_64 (arch h) \<Longrightarrow>
   \<not> defined_aarch64 (arch h) \<Longrightarrow>
   thread_loop h K ts tr = (if ts = [] then None else Some (- 2), tr)"
  by (cases ts) (simp_all add: fence_syscall_def)

section \<open>The capability probe\<close>

text \<open>
  C3. \<open>is_supported\<close> returns 1 exactly on the 64-bit x86 and 64-bit ARM builds and 0
  on every other architecture; it makes no kernel call, and its result is the same
  under any OS version and any kernel.
\<close>

theorem is_supported_arch_only:
  "(fst (is_supported h K) = 1 \<longleftrightarrow> arch h = X86_64 \<or> arch h = AArch64) \<and>
   (fst (is_supported h K) = 0 \<longleftrightarrow> arch h \<noteq> X86_64 \<and> arch h \<noteq> AArch64) \<and>
   snd (is_supported h K) = [] \<and>
   is_supported h K = is_supported \<lparr>arch = arch h, os = os'\<rparr> K'"
  by (simp add: is_supported_def defined_x86_64_def defined_aarch64_def)

section \<open>The barrier executor\<close>

subsection \<open>Status codes\<close>

text \<open>
  C9. The values \<open>flush_process_write_buffers\<close> returns, over all hosts and kernels,
  are exactly the six status codes: 0 and the five failure values, which are pairwise
  distinct.
\<close>

theorem flush_status_codes:
  "range (\<lambda>(h, K). fst (flush_process_write_buffers h K)) =
     {0, EnumerationFailed, ArchitectureUnsupported, PerThreadFenceFailed,
      HandleReleaseFailed, ListDeallocationFailed} \<and>
   distinct [0, EnumerationFailed, ArchitectureUnsupported, PerThreadFenceFailed,
      HandleReleaseFailed, ListDeallocationFailed]"
proof (intro conjI equalityI subsetI)
  fix x assume "x \<in> range (\<lambda>(h, K). fst (flush_process_write_buffers h K))"
  then obtain h K where "x = fst (flush_process_write_buffers h K)" by auto
  with flush_status[of h K]
  show "x \<in> {0, EnumerationFailed, ArchitectureUnsupported, PerThreadFenceFailed,
      HandleReleaseFailed, ListDeallocationFailed}"
    by (simp add: status_defs)
next
  fix x assume "x \<in> {0, EnumerationFailed, ArchitectureUnsupported, PerThreadFenceFailed,
      HandleReleaseFailed, ListDeallocationFailed}"
  then consider "x = 0" | "x = - 1" | "x = - 2" | "x = - 3" | "x = - 4" | "x = - 5"
    by (auto simp: status_defs)
  then show "x \<in> range (\<lambda>(h, K). fst (flush_process_write_buffers h K))"
  proof cases
    case 1
    have "fst (flush_process_write_buffers \<lparr>arch = X86_64, os = MacOS 10 14\<rparr> (kernel_ok [1])) = 0"
      by (simp add: run_success)
    with 1 show ?thesis by (metis (mono_tags, lifting) case_prod_conv rangeI)
  next
    case 2
    with run_enumeration_failed show ?thesis
      by (metis (mono_tags, lifting) case_prod_conv rangeI)
  next
    case 3
    with run_unsupported show ?thesis
      by (metis (mono_tags, lifting) case_prod_conv rangeI)
  next
    case 4
    with run_fence_failed show ?thesis
      by (metis (mono_tags, lifting) case_prod_conv rangeI)
  next
    case 5
    with run_release_failed show ?thesis
      by (metis (mono_tags, lifting) case_prod_conv rangeI)
  next
    case 6
    with run_dealloc_failed show ?thesis
      by (metis (mono_tags, lifting) case_prod_conv rangeI)
  qed
next
  show "distinct [0, EnumerationFailed, ArchitectureUnsupported, PerThreadFenceFailed,
      HandleReleaseFailed, ListDeallocationFailed]"
    by (simp add: status_defs)
qed

subsection \<open>Enumeration\<close>

text \<open>
  C8. If the kernel rejects \<open>task_threads\<close>, the call returns \<open>EnumerationFailed\<close> and
  the enumeration is the only kernel call it has made: no fence-forcing call, no handle
  release, no deallocation of the list.
\<close>

theorem enumeration_rejected:
  "ret (K [] Task_threads) \<noteq> KERN_SUCCESS \<Longrightarrow>
   flush_process_write_buffers h K = (EnumerationFailed, [(Task_threads, K [] Task_threads)])"
  by (simp add: flush_process_write_buffers_def do_syscall_eq EnumerationFailed_def)

theorem enumeration_rejected_witness:
  "ret (kernel_failing Task_threads [1, 2] [] Task_threads) \<noteq> KERN_SUCCESS \<and>
   flush_process_write_buffers \<lparr>arch = X86_64, os = MacOS 10 14\<rparr>
       (kernel_failing Task_threads [1, 2]) =
     (EnumerationFailed, [(Task_threads, \<lparr>ret = 5, threads = [1, 2]\<rparr>)])"
proof -
  have a: "ret (kernel_failing Task_threads [1, 2] [] Task_threads) \<noteq> KERN_SUCCESS"
    by (simp add: kernel_failing_def KERN_SUCCESS_def)
  from enumeration_rejected[where K = "kernel_failing Task_threads [1, 2]"
      and h = "\<lparr>arch = X86_64, os = MacOS 10 14\<rparr>", OF a] a
  show ?thesis
    by (simp add: kernel_failing_def)
qed

subsection \<open>Success\<close>

text \<open>
  C4. \<open>flush_process_write_buffers\<close> returns 0 if and only if the host has a fence
  path for the enumerated threads and the kernel grants every step of the whole
  barrier: the enumeration, the fence attempt and the handle release of each enumerated
  thread in order, and the deallocation of the list. When it returns 0, the calls it
  has made are exactly those steps with the kernel's answers, so it never returns 0
  after only a part of them.
\<close>

theorem flush_success_iff_kernel_grants:
  "(fst (flush_process_write_buffers h K) = 0 \<longleftrightarrow>
      (fence_path_exists h \<or> threads (K [] Task_threads) = []) \<and>
      list_all granted (replay K (barrier_steps h (threads (K [] Task_threads))))) \<and>
   (fst (flush_process_write_buffers h K) = 0 \<longrightarrow>
      snd (flush_process_write_buffers h K) =
        replay K (barrier_steps h (threads (K [] Task_threads))))"
proof -
  define r0 where "r0 = K [] Task_threads"
  define tr0 where "tr0 = [(Task_threads, r0)]"
  define vm where "vm = Vm_deallocate (length (threads r0) * sizeof_thread_act_t)"
  define mid where "mid = issue K (thread_steps h (threads r0)) tr0"
  obtain res1 tr1 where l: "thread_loop h K (threads r0) tr0 = (res1, tr1)"
    by (cases "thread_loop h K (threads r0) tr0")
  have rp: "replay K (barrier_steps h (threads r0)) = mid @ [(vm, K mid vm)]"
    by (simp add: replay_def barrier_steps_def issue_append r0_def tr0_def vm_def mid_def)
  have g0: "list_all granted tr0 \<longleftrightarrow> ret r0 = KERN_SUCCESS"
    by (simp add: tr0_def granted_def)
  have pre: "list_all granted mid \<Longrightarrow> ret r0 = KERN_SUCCESS"
    using issue_granted_prefix[of K "thread_steps h (threads r0)" tr0] g0 by (simp add: mid_def)
  show ?thesis
  proof (cases "ret r0 = KERN_SUCCESS")
    case False
    with pre have "\<not> list_all granted mid" by blast
    with False show ?thesis
      by (simp add: flush_unfold Let_def r0_def[symmetric] tr0_def[symmetric] rp)
  next
    case True
    show ?thesis
    proof (cases "fence_path_exists h")
      case path: True
      from thread_loop_replay[OF path l] g0 True
      have inv: "res1 = None \<longleftrightarrow> list_all granted mid" "res1 = None \<longrightarrow> tr1 = mid"
        by (simp_all add: mid_def)
      show ?thesis
      proof (cases res1)
        case None
        with inv have "list_all granted mid" "tr1 = mid" by simp_all
        with True None path show ?thesis
          by (simp add: flush_unfold Let_def r0_def[symmetric] tr0_def[symmetric] l rp
                vm_def[symmetric] granted_def)
      next
        case (Some e)
        with thread_loop_status[OF l] have "e \<noteq> 0" by auto
        moreover from Some inv have "\<not> list_all granted mid" by simp
        ultimately show ?thesis using True Some
          by (simp add: flush_unfold Let_def r0_def[symmetric] tr0_def[symmetric] l rp)
      qed
    next
      case nopath: False
      note u = thread_loop_unsupported[OF no_fence_path[OF nopath, THEN conjunct1]
          no_fence_path[OF nopath, THEN conjunct2, THEN conjunct1]
          no_fence_path[OF nopath, THEN conjunct2, THEN conjunct2], of K "threads r0" tr0]
      show ?thesis
      proof (cases "threads r0 = []")
        case Nil: True
        then have m: "mid = tr0" by (simp add: mid_def thread_steps_def)
        from rp Nil m have rp': "replay K (barrier_steps h []) =
            tr0 @ [(Vm_deallocate 0, K tr0 (Vm_deallocate 0))]"
          by (simp add: vm_def)
        from g0 True have "list_all granted tr0" by simp
        with True Nil nopath u show ?thesis
          by (simp add: flush_unfold Let_def r0_def[symmetric] tr0_def[symmetric] rp'
                granted_def)
      next
        case False
        with True nopath u show ?thesis
          by (simp add: flush_unfold Let_def r0_def[symmetric] tr0_def[symmetric])
      qed
    qed
  qed
qed

theorem flush_success_iff_kernel_grants_witness:
  "fst (flush_process_write_buffers \<lparr>arch = X86_64, os = MacOS 10 14\<rparr> (kernel_ok [1, 2])) = 0 \<and>
   snd (flush_process_write_buffers \<lparr>arch = X86_64, os = MacOS 10 14\<rparr> (kernel_ok [1, 2])) =
     [(Task_threads, \<lparr>ret = 0, threads = [1, 2]\<rparr>),
      (Thread_get_register_pointer_values 1, \<lparr>ret = 0, threads = []\<rparr>),
      (Mach_port_deallocate 1, \<lparr>ret = 0, threads = []\<rparr>),
      (Thread_get_register_pointer_values 2, \<lparr>ret = 0, threads = []\<rparr>),
      (Mach_port_deallocate 2, \<lparr>ret = 0, threads = []\<rparr>),
      (Vm_deallocate 8, \<lparr>ret = 0, threads = []\<rparr>)] \<and>
   fst (flush_process_write_buffers \<lparr>arch = X86_64, os = MacOS 10 14\<rparr>
     (kernel_failing (Mach_port_deallocate 2) [1, 2])) \<noteq> 0"
proof -
  let ?h = "\<lparr>arch = X86_64, os = MacOS 10 14\<rparr>"
  let ?ok = "kernel_ok [1, 2]"
  let ?bad = "kernel_failing (Mach_port_deallocate 2) [1, 2]"
  have ts: "threads (?ok [] Task_threads) = [1, 2]" "threads (?bad [] Task_threads) = [1, 2]"
    by (simp_all add: kernel_ok_def kernel_failing_def)
  have path: "fence_path_exists ?h" by (simp add: fence_path_exists_def)
  have rp: "replay ?ok (barrier_steps ?h [1, 2]) =
     [(Task_threads, \<lparr>ret = 0, threads = [1, 2]\<rparr>),
      (Thread_get_register_pointer_values 1, \<lparr>ret = 0, threads = []\<rparr>),
      (Mach_port_deallocate 1, \<lparr>ret = 0, threads = []\<rparr>),
      (Thread_get_register_pointer_values 2, \<lparr>ret = 0, threads = []\<rparr>),
      (Mach_port_deallocate 2, \<lparr>ret = 0, threads = []\<rparr>),
      (Vm_deallocate 8, \<lparr>ret = 0, threads = []\<rparr>)]"
    by (simp add: replay_defs kernel_ok_def sizeof_thread_act_t_def KERN_SUCCESS_def)
  have g: "list_all granted (replay ?ok (barrier_steps ?h [1, 2]))"
    unfolding rp by (simp add: granted_def KERN_SUCCESS_def)
  have ng: "\<not> list_all granted (replay ?bad (barrier_steps ?h [1, 2]))"
    by (simp add: replay_defs kernel_failing_def sizeof_thread_act_t_def KERN_SUCCESS_def)
  note ok = flush_success_iff_kernel_grants[of ?h ?ok, unfolded ts]
  note bad = flush_success_iff_kernel_grants[of ?h ?bad, unfolded ts]
  from ok path g have 1: "fst (flush_process_write_buffers ?h ?ok) = 0" by blast
  with ok have 2: "snd (flush_process_write_buffers ?h ?ok) = replay ?ok (barrier_steps ?h [1, 2])"
    by blast
  from bad ng have 3: "fst (flush_process_write_buffers ?h ?bad) \<noteq> 0" by blast
  from 1 2 3 show ?thesis unfolding rp by blast
qed

subsection \<open>A failed fence\<close>

text \<open>
  C5. If a fence-forcing kernel call on a thread reports failure, it is the last kernel
  call the function makes, so no later thread is touched, and the function returns
  \<open>PerThreadFenceFailed\<close>.
\<close>

theorem fence_failure_aborts:
  assumes run: "flush_process_write_buffers h K = (res, tr)"
    and i: "i < length tr"
    and call: "is_fence_call (fst (tr ! i))"
    and failed: "ret (snd (tr ! i)) \<noteq> KERN_SUCCESS"
  shows "res = PerThreadFenceFailed \<and> Suc i = length tr"
proof -
  define r0 where "r0 = K [] Task_threads"
  define tr0 where "tr0 = [(Task_threads, r0)]"
  obtain res1 tr1 where l: "thread_loop h K (threads r0) tr0 = (res1, tr1)"
    by (cases "thread_loop h K (threads r0) tr0")
  have ff: "fence_failed (tr ! i)"
    using call failed by (simp add: fence_failed_def)
  have ok0: "\<forall>e\<in>set tr0. \<not> fence_failed e"
    by (simp add: tr0_def fence_failed_def)
  note inv = thread_loop_fence_failure[OF l ok0]
  have mem: "tr ! i \<in> set tr" using i by simp
  show ?thesis
  proof (cases "ret r0 = KERN_SUCCESS")
    case False
    with run have "tr = tr0"
      by (auto simp: flush_unfold Let_def r0_def[symmetric] tr0_def[symmetric])
    with mem ok0 ff show ?thesis by auto
  next
    case True
    show ?thesis
    proof (cases "res1 = Some (- 3)")
      case True3: True
      with run True l have eq: "res = - 3" "tr = tr1"
        by (auto simp: flush_unfold Let_def r0_def[symmetric] tr0_def[symmetric])
      from inv True3 have bl: "\<forall>e\<in>set (butlast tr1). \<not> fence_failed e" by auto
      have "\<not> i < length tr1 - 1"
      proof
        assume "i < length tr1 - 1"
        then have lt: "i < length (butlast tr1)" by simp
        then have "butlast tr1 ! i = tr1 ! i" by (simp add: nth_butlast)
        moreover from lt have "butlast tr1 ! i \<in> set (butlast tr1)" by (rule nth_mem)
        ultimately show False using bl ff eq by auto
      qed
      with i eq show ?thesis by (auto simp: PerThreadFenceFailed_def)
    next
      case False
      with inv have all1: "\<forall>e\<in>set tr1. \<not> fence_failed e" by auto
      have "\<forall>e\<in>set tr. \<not> fence_failed e"
        using run True l all1 False
        by (cases res1)
           (auto simp: flush_unfold Let_def r0_def[symmetric] tr0_def[symmetric]
              fence_failed_def)
      with mem ff show ?thesis by auto
    qed
  qed
qed

theorem fence_failure_aborts_witness:
  "flush_process_write_buffers \<lparr>arch = X86_64, os = MacOS 10 14\<rparr>
      (kernel_failing (Thread_get_register_pointer_values 2) [1, 2]) =
     (PerThreadFenceFailed,
      [(Task_threads, \<lparr>ret = 0, threads = [1, 2]\<rparr>),
       (Thread_get_register_pointer_values 1, \<lparr>ret = 0, threads = []\<rparr>),
       (Mach_port_deallocate 1, \<lparr>ret = 0, threads = []\<rparr>),
       (Thread_get_register_pointer_values 2, \<lparr>ret = 5, threads = []\<rparr>)])"
proof -
  let ?tr = "[(Task_threads, \<lparr>ret = 0, threads = [1, 2]\<rparr>),
       (Thread_get_register_pointer_values 1, \<lparr>ret = 0, threads = []\<rparr>),
       (Mach_port_deallocate 1, \<lparr>ret = 0, threads = []\<rparr>),
       (Thread_get_register_pointer_values 2, \<lparr>ret = 5, threads = []\<rparr>)]"
  have run: "flush_process_write_buffers \<lparr>arch = X86_64, os = MacOS 10 14\<rparr>
      (kernel_failing (Thread_get_register_pointer_values 2) [1, 2]) = (- 3, ?tr)"
    by (simp add: eval_defs)
  have "- 3 = PerThreadFenceFailed \<and> Suc 3 = length ?tr"
    by (rule fence_failure_aborts[OF run]) (simp_all add: KERN_SUCCESS_def)
  with run show ?thesis by simp
qed

subsection \<open>The fence strategy\<close>

lemma flush_fence_calls:
  assumes run: "flush_process_write_buffers h K = (res, tr)"
    and enum: "enumerated tr = Some ts"
  shows "fence_calls tr =
           map (\<lambda>t. the (fence_syscall h t)) (take (length (fence_calls tr)) ts) \<and>
         (res = 0 \<longrightarrow> length (fence_calls tr) = length ts)"
proof -
  define r0 where "r0 = K [] Task_threads"
  define tr0 where "tr0 = [(Task_threads, r0)]"
  obtain res1 tr1 where l: "thread_loop h K (threads r0) tr0 = (res1, tr1)"
    by (cases "thread_loop h K (threads r0) tr0")
  have e1: "enumerated tr1 = enumerated tr0" "tr1 \<noteq> []"
    using thread_loop_enumerated[OF l] by (simp_all add: tr0_def)
  have e2: "enumerated (tr1 @ x) = enumerated tr1" for x
    using e1(2) by (cases tr1) (simp_all add: enumerated_def)
  have e0: "enumerated tr0 = (if ret r0 = KERN_SUCCESS then Some (threads r0) else None)"
    by (simp add: enumerated_def tr0_def)
  have ok: "ret r0 = KERN_SUCCESS"
  proof (rule ccontr)
    assume no: "ret r0 \<noteq> KERN_SUCCESS"
    with run have "tr = tr0"
      by (auto simp: flush_unfold Let_def r0_def[symmetric] tr0_def[symmetric])
    with enum e0 no show False by simp
  qed
  have fc: "fence_calls tr = fence_calls tr1" and en: "enumerated tr = enumerated tr1"
    and r: "res = 0 \<longrightarrow> res1 = None"
    using run ok l thread_loop_status[OF l]
    by (auto simp: flush_unfold Let_def r0_def[symmetric] tr0_def[symmetric] e2 fence_calls_def
          split: option.splits if_splits)
  from en enum e1 e0 ok have ts: "ts = threads r0" by simp
  from thread_loop_fence_calls[OF l] obtain n where n: "n \<le> length ts"
    "fence_calls tr1 = map (\<lambda>t. the (fence_syscall h t)) (take n ts)"
    "res1 = None \<longrightarrow> n = length ts"
    by (auto simp: ts tr0_def fence_calls_def)
  from n(1,2) have "length (fence_calls tr1) = n" by simp
  with n fc r show ?thesis by simp
qed

text \<open>
  C7. The fence-forcing calls of a run go to the enumerated threads in enumeration
  order, one call per thread reached (and every thread is reached when the run
  succeeds), and the kind of call is fixed by the OS check: where
  \<^verbatim>\<open>__builtin_available (macOS 10.14, iOS 12, *)\<close> holds it is
  \<^verbatim>\<open>thread_get_register_pointer_values\<close>; otherwise it is \<^verbatim>\<open>thread_get_state\<close> with
  the flavor \<^verbatim>\<open>x86_THREAD_STATE64\<close> on an x86-64 build and \<^verbatim>\<open>ARM_THREAD_STATE64\<close> on
  an ARM64 build.
\<close>

theorem fence_strategy_selection:
  assumes run: "flush_process_write_buffers h K = (res, tr)"
    and enum: "enumerated tr = Some ts"
  shows "(builtin_available (os h) \<longrightarrow>
            fence_calls tr =
              map Thread_get_register_pointer_values (take (length (fence_calls tr)) ts)) \<and>
         (\<not> builtin_available (os h) \<and> arch h = X86_64 \<longrightarrow>
            fence_calls tr =
              map (\<lambda>t. Thread_get_state t x86_THREAD_STATE64)
                (take (length (fence_calls tr)) ts)) \<and>
         (\<not> builtin_available (os h) \<and> arch h = AArch64 \<longrightarrow>
            fence_calls tr =
              map (\<lambda>t. Thread_get_state t ARM_THREAD_STATE64)
                (take (length (fence_calls tr)) ts)) \<and>
         (res = 0 \<longrightarrow> length (fence_calls tr) = length ts)"
proof -
  note fc = flush_fence_calls[OF run enum]
  have a: "(\<lambda>t. the (fence_syscall h t)) = Thread_get_register_pointer_values"
    if "builtin_available (os h)"
    using that by (auto simp: fence_syscall_def)
  have b: "(\<lambda>t. the (fence_syscall h t)) = (\<lambda>t. Thread_get_state t x86_THREAD_STATE64)"
    if "\<not> builtin_available (os h) \<and> arch h = X86_64"
    using that by (auto simp: fence_syscall_def defined_x86_64_def)
  have c: "(\<lambda>t. the (fence_syscall h t)) = (\<lambda>t. Thread_get_state t ARM_THREAD_STATE64)"
    if "\<not> builtin_available (os h) \<and> arch h = AArch64"
    using that by (auto simp: fence_syscall_def defined_x86_64_def defined_aarch64_def)
  show ?thesis
  proof (intro conjI impI)
    assume "builtin_available (os h)"
    from fc[THEN conjunct1] a[OF this]
    show "fence_calls tr =
        map Thread_get_register_pointer_values (take (length (fence_calls tr)) ts)"
      by simp
  next
    assume "\<not> builtin_available (os h) \<and> arch h = X86_64"
    from fc[THEN conjunct1] b[OF this]
    show "fence_calls tr =
        map (\<lambda>t. Thread_get_state t x86_THREAD_STATE64) (take (length (fence_calls tr)) ts)"
      by simp
  next
    assume "\<not> builtin_available (os h) \<and> arch h = AArch64"
    from fc[THEN conjunct1] c[OF this]
    show "fence_calls tr =
        map (\<lambda>t. Thread_get_state t ARM_THREAD_STATE64) (take (length (fence_calls tr)) ts)"
      by simp
  next
    assume "res = 0"
    with fc show "length (fence_calls tr) = length ts" by simp
  qed
qed

theorem fence_strategy_selection_witness:
  "fence_calls (snd (flush_process_write_buffers \<lparr>arch = X86_64, os = MacOS 10 14\<rparr>
      (kernel_ok [1]))) = [Thread_get_register_pointer_values 1] \<and>
   fence_calls (snd (flush_process_write_buffers \<lparr>arch = X86_64, os = MacOS 10 13\<rparr>
      (kernel_ok [1]))) = [Thread_get_state 1 x86_THREAD_STATE64] \<and>
   fence_calls (snd (flush_process_write_buffers \<lparr>arch = AArch64, os = IOS 11 4\<rparr>
      (kernel_ok [1]))) = [Thread_get_state 1 ARM_THREAD_STATE64]"
proof -
  let ?new = "[(Task_threads, \<lparr>ret = 0, threads = [1]\<rparr>),
          (Thread_get_register_pointer_values 1, \<lparr>ret = 0, threads = []\<rparr>),
          (Mach_port_deallocate 1, \<lparr>ret = 0, threads = []\<rparr>),
          (Vm_deallocate 4, \<lparr>ret = 0, threads = []\<rparr>)]"
  let ?x86 = "[(Task_threads, \<lparr>ret = 0, threads = [1]\<rparr>),
          (Thread_get_state 1 x86_THREAD_STATE64, \<lparr>ret = 0, threads = []\<rparr>),
          (Mach_port_deallocate 1, \<lparr>ret = 0, threads = []\<rparr>),
          (Vm_deallocate 4, \<lparr>ret = 0, threads = []\<rparr>)]"
  let ?arm = "[(Task_threads, \<lparr>ret = 0, threads = [1]\<rparr>),
          (Thread_get_state 1 ARM_THREAD_STATE64, \<lparr>ret = 0, threads = []\<rparr>),
          (Mach_port_deallocate 1, \<lparr>ret = 0, threads = []\<rparr>),
          (Vm_deallocate 4, \<lparr>ret = 0, threads = []\<rparr>)]"
  have e: "enumerated ?new = Some [1]" "enumerated ?x86 = Some [1]" "enumerated ?arm = Some [1]"
    by (simp_all add: enumerated_def KERN_SUCCESS_def)
  have os: "builtin_available (os \<lparr>arch = X86_64, os = MacOS 10 14\<rparr>)"
    "\<not> builtin_available (os \<lparr>arch = X86_64, os = MacOS 10 13\<rparr>) \<and>
       arch \<lparr>arch = X86_64, os = MacOS 10 13\<rparr> = X86_64"
    "\<not> builtin_available (os \<lparr>arch = AArch64, os = IOS 11 4\<rparr>) \<and>
       arch \<lparr>arch = AArch64, os = IOS 11 4\<rparr> = AArch64"
    by simp_all
  note new = fence_strategy_selection[OF run_success e(1)]
  note x86 = fence_strategy_selection[OF run_fallback_x86 e(2)]
  note arm = fence_strategy_selection[OF run_fallback_arm e(3)]
  have zero: "(0::int) = 0" by simp
  from new zero have n1: "length (fence_calls ?new) = length [1 :: thread_act_t]" by blast
  from new os(1) have "fence_calls ?new =
      map Thread_get_register_pointer_values (take (length (fence_calls ?new)) [1])"
    by blast
  then have 1: "fence_calls ?new = [Thread_get_register_pointer_values 1]"
    unfolding n1 by simp
  from x86 zero have n2: "length (fence_calls ?x86) = length [1 :: thread_act_t]" by blast
  from x86 os(2) have "fence_calls ?x86 =
      map (\<lambda>t. Thread_get_state t x86_THREAD_STATE64) (take (length (fence_calls ?x86)) [1])"
    by blast
  then have 2: "fence_calls ?x86 = [Thread_get_state 1 x86_THREAD_STATE64]"
    unfolding n2 by simp
  from arm zero have n3: "length (fence_calls ?arm) = length [1 :: thread_act_t]" by blast
  from arm os(3) have "fence_calls ?arm =
      map (\<lambda>t. Thread_get_state t ARM_THREAD_STATE64) (take (length (fence_calls ?arm)) [1])"
    by blast
  then have 3: "fence_calls ?arm = [Thread_get_state 1 ARM_THREAD_STATE64]"
    unfolding n3 by simp
  from 1 2 3 show ?thesis
    by (simp only: run_success run_fallback_x86 run_fallback_arm snd_conv simp_thms)
qed

subsection \<open>Unsupported architectures\<close>

text \<open>
  C10. Where the OS check holds, \<open>flush_process_write_buffers\<close> never returns
  \<open>ArchitectureUnsupported\<close>, whatever the build architecture.
\<close>

theorem available_never_unsupported:
  assumes "builtin_available (os h)"
  shows "fst (flush_process_write_buffers h K) \<noteq> ArchitectureUnsupported"
proof -
  define r0 where "r0 = K [] Task_threads"
  define tr0 where "tr0 = [(Task_threads, r0)]"
  obtain res tr1 where l: "thread_loop h K (threads r0) tr0 = (res, tr1)"
    by (cases "thread_loop h K (threads r0) tr0")
  from thread_loop_available[OF assms l] show ?thesis
    by (auto simp: flush_unfold Let_def r0_def[symmetric] tr0_def[symmetric] l
          ArchitectureUnsupported_def split: option.splits)
qed

theorem available_never_unsupported_witness:
  "builtin_available (os \<lparr>arch = I386, os = MacOS 10 14\<rparr>) \<and>
   fst (flush_process_write_buffers \<lparr>arch = I386, os = MacOS 10 14\<rparr> (kernel_ok [1]))
     \<noteq> ArchitectureUnsupported"
proof -
  have a: "builtin_available (os \<lparr>arch = I386, os = MacOS 10 14\<rparr>)" by simp
  from available_never_unsupported[where K = "kernel_ok [1]", OF a] a show ?thesis by simp
qed

text \<open>
  C6, as the claim states it, fails: on a build for an architecture that
  \<open>is_supported\<close> rejects, running on macOS 10.14, the function takes the preferred
  path, forces the fence and returns 0.
\<close>

theorem unsupported_arch_counterexample:
  "fst (is_supported \<lparr>arch = I386, os = MacOS 10 14\<rparr> (kernel_ok [1])) = 0 \<and>
   fst (flush_process_write_buffers \<lparr>arch = I386, os = MacOS 10 14\<rparr> (kernel_ok [1])) = 0 \<and>
   fst (flush_process_write_buffers \<lparr>arch = I386, os = MacOS 10 14\<rparr> (kernel_ok [1]))
     \<noteq> ArchitectureUnsupported \<and>
   fence_calls (snd (flush_process_write_buffers \<lparr>arch = I386, os = MacOS 10 14\<rparr>
     (kernel_ok [1]))) = [Thread_get_register_pointer_values 1]"
  by (simp add: eval_defs is_supported_def fence_calls_def ArchitectureUnsupported_def)

text \<open>
  C6, amended. On an architecture that \<open>is_supported\<close> rejects and an OS build where
  the preferred path is unavailable, \<open>flush_process_write_buffers\<close> makes no
  fence-forcing call at all, and once the enumeration has succeeded with at least one
  thread it returns \<open>ArchitectureUnsupported\<close>.
\<close>

theorem unsupported_without_preferred_path:
  assumes old: "\<not> builtin_available (os h)"
    and unsup: "fst (is_supported h K) = 0"
  shows "fence_calls (snd (flush_process_write_buffers h K)) = [] \<and>
         (ret (K [] Task_threads) = KERN_SUCCESS \<and> threads (K [] Task_threads) \<noteq> [] \<longrightarrow>
            fst (flush_process_write_buffers h K) = ArchitectureUnsupported)"
proof -
  from unsup have a: "\<not> defined_x86_64 (arch h)" "\<not> defined_aarch64 (arch h)"
    by (auto simp: is_supported_def split: if_splits)
  show ?thesis
    by (simp add: flush_unfold Let_def thread_loop_unsupported[OF old a] fence_calls_def
          ArchitectureUnsupported_def)
qed

theorem unsupported_without_preferred_path_witness:
  "\<not> builtin_available (os \<lparr>arch = I386, os = MacOS 10 13\<rparr>) \<and>
   fst (is_supported \<lparr>arch = I386, os = MacOS 10 13\<rparr> (kernel_ok [1, 2])) = 0 \<and>
   ret (kernel_ok [1, 2] [] Task_threads) = KERN_SUCCESS \<and>
   threads (kernel_ok [1, 2] [] Task_threads) \<noteq> [] \<and>
   fence_calls (snd (flush_process_write_buffers \<lparr>arch = I386, os = MacOS 10 13\<rparr>
     (kernel_ok [1, 2]))) = [] \<and>
   fst (flush_process_write_buffers \<lparr>arch = I386, os = MacOS 10 13\<rparr> (kernel_ok [1, 2])) =
     ArchitectureUnsupported"
proof -
  have old: "\<not> builtin_available (os \<lparr>arch = I386, os = MacOS 10 13\<rparr>)" by simp
  have unsup: "fst (is_supported \<lparr>arch = I386, os = MacOS 10 13\<rparr> (kernel_ok [1, 2])) = 0"
    by (simp add: is_supported_def defined_x86_64_def defined_aarch64_def)
  have k: "ret (kernel_ok [1, 2] [] Task_threads) = KERN_SUCCESS"
    "threads (kernel_ok [1, 2] [] Task_threads) \<noteq> []"
    by (simp_all add: kernel_ok_def)
  from unsupported_without_preferred_path[OF old unsup] k old unsup show ?thesis by blast
qed

subsection \<open>Kernel resources\<close>

text \<open>A run that returns 0 has given back every handle and the thread list.\<close>

lemma success_releases_everything:
  assumes "fst (flush_process_write_buffers h K) = 0"
  shows "held_handles (snd (flush_process_write_buffers h K)) = [] \<and>
         \<not> list_held (snd (flush_process_write_buffers h K))"
proof -
  define r0 where "r0 = K [] Task_threads"
  define tr0 where "tr0 = [(Task_threads, r0)]"
  obtain res1 tr1 where l: "thread_loop h K (threads r0) tr0 = (res1, tr1)"
    by (cases "thread_loop h K (threads r0) tr0")
  from assms thread_loop_status[OF l] have ok: "ret r0 = KERN_SUCCESS" "res1 = None"
    "ret (K tr1 (Vm_deallocate (length (threads r0) * sizeof_thread_act_t))) = KERN_SUCCESS"
    by (auto simp: flush_unfold Let_def r0_def[symmetric] tr0_def[symmetric] l
          split: if_splits option.splits)
  have "held_handles tr0 = threads r0"
    using ok(1) by (simp add: held_handles_def tr0_def)
  from thread_loop_releases[OF l[unfolded ok(2)] this] have "held_handles tr1 = []" .
  then show ?thesis using ok
    by (simp add: flush_unfold Let_def r0_def[symmetric] tr0_def[symmetric] l
          held_handles_append list_held_def list_deallocated_def)
qed

text \<open>
  C1 does not hold of the failure returns. With two threads enumerated and the
  fence-forcing call on the first one failing, the function returns
  \<open>PerThreadFenceFailed\<close> after two kernel calls, and both thread handles and the
  thread list are still held when it returns.
\<close>

theorem fence_failure_leaks:
  "flush_process_write_buffers \<lparr>arch = X86_64, os = MacOS 10 14\<rparr>
      (kernel_failing (Thread_get_register_pointer_values 1) [1, 2]) =
     (PerThreadFenceFailed,
      [(Task_threads, \<lparr>ret = 0, threads = [1, 2]\<rparr>),
       (Thread_get_register_pointer_values 1, \<lparr>ret = 5, threads = []\<rparr>)]) \<and>
   held_handles (snd (flush_process_write_buffers \<lparr>arch = X86_64, os = MacOS 10 14\<rparr>
      (kernel_failing (Thread_get_register_pointer_values 1) [1, 2]))) = [1, 2] \<and>
   list_held (snd (flush_process_write_buffers \<lparr>arch = X86_64, os = MacOS 10 14\<rparr>
      (kernel_failing (Thread_get_register_pointer_values 1) [1, 2])))"
  by (simp add: eval_defs PerThreadFenceFailed_def held_handles_def list_held_def
        enumerated_def list_deallocated_def)

end
